theory Spec2Isabelle
  imports Main "HOL-Library.Word"
begin

section \<open>The ordered map underneath the adjacency list\<close>

text \<open>
  \<^verbatim>\<open>src/graph/adjacency_list.h\<close> stores a graph as
  \<^verbatim>\<open>std::map<V, std::map<V, int>>\<close>. An ordered map is modelled by the sequence of its
  entries in iteration order, that is by an association list whose keys increase strictly
  (\<open>map_inv\<close>). The identifier type \<open>V\<close> with \<^verbatim>\<open>std::less<V>\<close> is a linear order; the
  weight is a C++ \<^verbatim>\<open>int\<close>, a 32-bit word that the code only stores and reads back.
  Sizes are \<^verbatim>\<open>size_t\<close>; they count entries held in memory and are modelled by \<open>nat\<close>.
\<close>

type_synonym cint = "32 word"

type_synonym ('k, 'v) std_map = "('k \<times> 'v) list"

definition map_inv :: "('k::linorder, 'v) std_map \<Rightarrow> bool" where
  "map_inv m = sorted_wrt (<) (map fst m)"

text \<open>\<^verbatim>\<open>m.find(k)\<close>: the value stored under \<open>k\<close>, \<open>None\<close> for the end iterator.\<close>

fun map_find :: "('k, 'v) std_map \<Rightarrow> 'k \<Rightarrow> 'v option" where
  "map_find [] k = None"
| "map_find ((a, b) # m) k = (if a = k then Some b else map_find m k)"

text \<open>
  \<^verbatim>\<open>m[k]\<close>: \<^verbatim>\<open>operator[]\<close> returns a reference to the value under \<open>k\<close>, inserting a
  value-initialised one (\<open>d\<close>) at the key's place in the order when \<open>k\<close> is absent. What
  the caller then does through the reference is the function \<open>f\<close>: \<open>id\<close> for the bare
  expression statement \<^verbatim>\<open>m[k];\<close>, \<open>\<lambda>_. w\<close> for the assignment \<^verbatim>\<open>m[k] = w\<close>, and
  another \<open>subscript\<close> for \<^verbatim>\<open>m[k][j] = w\<close>.
\<close>

fun subscript :: "('k::linorder, 'v) std_map \<Rightarrow> 'k \<Rightarrow> 'v \<Rightarrow> ('v \<Rightarrow> 'v) \<Rightarrow> ('k, 'v) std_map" where
  "subscript [] k d f = [(k, f d)]"
| "subscript ((a, b) # m) k d f =
     (if k < a then (k, f d) # (a, b) # m
      else if k = a then (a, f b) # m
      else (a, b) # subscript m k d f)"

section \<open>The undirected store: \<^verbatim>\<open>Adjacency_list\<close>\<close>

type_synonym 'v Edges = "('v, cint) std_map"

type_synonym 'v Adj = "('v, 'v Edges) std_map"

definition adj_inv :: "('v::linorder) Adj \<Rightarrow> bool" where
  "adj_inv adj = (map_inv adj \<and> list_all (\<lambda>p. map_inv (snd p)) adj)"

text \<open>\<^verbatim>\<open>Adjacency_list() = default\<close>: the empty map.\<close>

definition Adjacency_list :: "'v Adj" where
  "Adjacency_list = []"

text \<open>\<^verbatim>\<open>adj[u][v] = w\<close>, the statement every insertion is made of.\<close>

definition assign :: "('v::linorder) Adj \<Rightarrow> 'v \<Rightarrow> 'v \<Rightarrow> cint \<Rightarrow> 'v Adj" where
  "assign adj u v w = subscript adj u [] (\<lambda>edges. subscript edges v 0 (\<lambda>_. w))"

definition num_vertex :: "'v Adj \<Rightarrow> nat" where
  "num_vertex adj = length adj"

definition num_edge :: "'v Adj \<Rightarrow> nat" where
  "num_edge adj = drop_bit 1 (foldl (\<lambda>edges v. edges + length (snd v)) 0 adj)"

definition is_vertex :: "'v Adj \<Rightarrow> 'v \<Rightarrow> bool" where
  "is_vertex adj v = (map_find adj v \<noteq> None)"

definition is_edge :: "'v Adj \<Rightarrow> 'v \<Rightarrow> 'v \<Rightarrow> bool" where
  "is_edge adj u v =
     (case map_find adj u of
        None \<Rightarrow> False
      | Some edges \<Rightarrow> \<not> (map_find edges v = None))"

definition weight :: "'v Adj \<Rightarrow> 'v \<Rightarrow> 'v \<Rightarrow> cint" where
  "weight adj u v =
     (case map_find adj u of
        None \<Rightarrow> 0
      | Some edges \<Rightarrow> (case map_find edges v of None \<Rightarrow> 0 | Some w \<Rightarrow> w))"

definition degree :: "'v Adj \<Rightarrow> 'v \<Rightarrow> nat" where
  "degree adj v = (case map_find adj v of None \<Rightarrow> 0 | Some edges \<Rightarrow> length edges)"

text \<open>
  \<^verbatim>\<open>adjacent(v)\<close> returns the iterator pair delimiting the neighbour map of \<open>v\<close>; the
  model returns the entries between the two iterators, none when \<open>v\<close> is absent.
\<close>

definition adjacent :: "'v Adj \<Rightarrow> 'v \<Rightarrow> ('v \<times> cint) list" where
  "adjacent adj v = (case map_find adj v of Some edges \<Rightarrow> edges | None \<Rightarrow> [])"

text \<open>
  Vertex iteration: what dereferencing yields while a \<^verbatim>\<open>Vertex_iterator\<close> runs from
  \<^verbatim>\<open>begin()\<close> to \<^verbatim>\<open>end()\<close>, and from \<^verbatim>\<open>rbegin()\<close> to \<^verbatim>\<open>rend()\<close>.
\<close>

definition vertices :: "'v Adj \<Rightarrow> 'v list" where
  "vertices adj = map fst adj"

definition rvertices :: "'v Adj \<Rightarrow> 'v list" where
  "rvertices adj = map fst (rev adj)"

text \<open>
  \<^verbatim>\<open>min_vertex()\<close>; the first argument is the value-initialised identifier \<^verbatim>\<open>V{}\<close>,
  which depends on the type the template is instantiated with.
\<close>

definition min_vertex :: "'v \<Rightarrow> 'v Adj \<Rightarrow> 'v" where
  "min_vertex dflt adj = (case adj of [] \<Rightarrow> dflt | p # _ \<Rightarrow> fst p)"

definition add_vertex :: "('v::linorder) Adj \<Rightarrow> 'v \<Rightarrow> 'v Adj" where
  "add_vertex adj v = subscript adj v [] id"

definition add_edge :: "('v::linorder) Adj \<Rightarrow> 'v \<Rightarrow> 'v \<Rightarrow> cint \<Rightarrow> 'v Adj" where
  "add_edge adj u v w = assign (assign adj u v w) v u w"

section \<open>The directed store: \<^verbatim>\<open>Adjacency_list_directed\<close>\<close>

text \<open>
  The derived class keeps the field \<^verbatim>\<open>adj\<close> and every query of the base class, and
  overrides two virtual members: \<^verbatim>\<open>num_edge\<close> and \<^verbatim>\<open>add_edge\<close>.
\<close>

definition Adjacency_list_directed :: "'v Adj" where
  "Adjacency_list_directed = []"

definition num_edge_directed :: "'v Adj \<Rightarrow> nat" where
  "num_edge_directed adj = foldl (\<lambda>edges v. edges + length (snd v)) 0 adj"

definition add_edge_directed :: "('v::linorder) Adj \<Rightarrow> 'v \<Rightarrow> 'v \<Rightarrow> cint \<Rightarrow> 'v Adj" where
  "add_edge_directed adj u v w = subscript (assign adj u v w) v [] id"

section \<open>Construction from edge records\<close>

datatype 'v WEdge = WEdge 'v 'v cint

datatype 'v UEdge = UEdge 'v 'v

text \<open>The two initializer-list constructors of the undirected store.\<close>

definition Adjacency_list_UEdge :: "('v::linorder) UEdge list \<Rightarrow> 'v Adj" where
  "Adjacency_list_UEdge l =
     foldl (\<lambda>adj edge. case edge of UEdge s d \<Rightarrow> assign (assign adj s d 1) d s 1) [] l"

definition Adjacency_list_WEdge :: "('v::linorder) WEdge list \<Rightarrow> 'v Adj" where
  "Adjacency_list_WEdge l =
     foldl (\<lambda>adj edge. case edge of WEdge s d w \<Rightarrow> assign (assign adj s d w) d s w) [] l"

text \<open>
  The iterator-range constructor reads \<^verbatim>\<open>begin->source\<close>, \<^verbatim>\<open>begin->dest\<close> and
  \<^verbatim>\<open>begin->get_weight()\<close> of whatever record type the range holds. The header declares
  no record with a \<^verbatim>\<open>get_weight\<close> member, so the three accessors are parameters; the
  range from \<^verbatim>\<open>begin\<close> to \<^verbatim>\<open>end\<close> is the list of its records.
\<close>

definition Adjacency_list_range ::
  "('e \<Rightarrow> 'v::linorder) \<Rightarrow> ('e \<Rightarrow> 'v) \<Rightarrow> ('e \<Rightarrow> cint) \<Rightarrow> 'e list \<Rightarrow> 'v Adj" where
  "Adjacency_list_range source dest get_weight es =
     foldl (\<lambda>adj e. assign (assign adj (source e) (dest e) (get_weight e))
                            (dest e) (source e) (get_weight e)) [] es"

text \<open>The three constructors of the directed store.\<close>

definition Adjacency_list_directed_WEdge :: "('v::linorder) WEdge list \<Rightarrow> 'v Adj" where
  "Adjacency_list_directed_WEdge l =
     foldl (\<lambda>adj edge. case edge of WEdge s d w \<Rightarrow> subscript (assign adj s d w) d [] id) [] l"

definition Adjacency_list_directed_UEdge :: "('v::linorder) UEdge list \<Rightarrow> 'v Adj" where
  "Adjacency_list_directed_UEdge l =
     foldl (\<lambda>adj edge. case edge of UEdge s d \<Rightarrow> subscript (assign adj s d 1) d [] id) [] l"

definition Adjacency_list_directed_range ::
  "('e \<Rightarrow> 'v::linorder) \<Rightarrow> ('e \<Rightarrow> 'v) \<Rightarrow> ('e \<Rightarrow> cint) \<Rightarrow> 'e list \<Rightarrow> 'v Adj" where
  "Adjacency_list_directed_range source dest get_weight es =
     foldl (\<lambda>adj e. subscript (assign adj (source e) (dest e) (get_weight e)) (dest e) [] id)
       [] es"

section \<open>Histories of modifier calls\<close>

text \<open>
  A graph reachable from the empty one is the result of a finite sequence of calls of the
  modifier interface, \<^verbatim>\<open>add_vertex(v)\<close> and \<^verbatim>\<open>add_edge(u, v, weight)\<close>.
\<close>

datatype 'v call = Add_vertex 'v | Add_edge 'v 'v cint

fun do_call :: "('v::linorder) Adj \<Rightarrow> 'v call \<Rightarrow> 'v Adj" where
  "do_call adj (Add_vertex v) = add_vertex adj v"
| "do_call adj (Add_edge u v w) = add_edge adj u v w"

fun do_call_directed :: "('v::linorder) Adj \<Rightarrow> 'v call \<Rightarrow> 'v Adj" where
  "do_call_directed adj (Add_vertex v) = add_vertex adj v"
| "do_call_directed adj (Add_edge u v w) = add_edge_directed adj u v w"

definition run :: "('v::linorder) call list \<Rightarrow> 'v Adj" where
  "run cs = foldl do_call Adjacency_list cs"

definition run_directed :: "('v::linorder) call list \<Rightarrow> 'v Adj" where
  "run_directed cs = foldl do_call_directed Adjacency_list_directed cs"

text \<open>The identifiers a call inserts as vertices.\<close>

fun inserted :: "'v call \<Rightarrow> 'v list" where
  "inserted (Add_vertex v) = [v]"
| "inserted (Add_edge u v w) = [u, v]"

text \<open>
  The sum of \<^verbatim>\<open>degree(v)\<close> over all vertices: a caller iterates the vertices and asks
  for the degree of each.
\<close>

definition degree_sum :: "'v Adj \<Rightarrow> nat" where
  "degree_sum adj = sum_list (map (degree adj) (vertices adj))"

text \<open>
  A call that does not insert a self-loop.
\<close>

fun loop_free :: "'v call \<Rightarrow> bool" where
  "loop_free (Add_vertex v) = True"
| "loop_free (Add_edge u v w) = (u \<noteq> v)"

section \<open>Lookups after an insertion\<close>

lemma map_find_subscript_other:
  "k' \<noteq> k \<Longrightarrow> map_find (subscript m k d f) k' = map_find m k'"
  by (induction m) auto

lemma map_find_subscript_same:
  "\<exists>b. map_find (subscript m k d f) k = Some (f b)"
  by (induction m) auto

lemma map_find_subscript_const:
  "map_find (subscript m k d (\<lambda>_. w)) k = Some w"
  using map_find_subscript_same [of m k d "\<lambda>_. w"] by simp

lemma assign_same:
  "\<exists>edges. map_find (assign adj u v w) u = Some edges \<and> map_find edges v = Some w"
  using map_find_subscript_same [of adj u "[]" "\<lambda>edges. subscript edges v 0 (\<lambda>_. w)"]
  by (auto simp: assign_def map_find_subscript_const)

lemma assign_other_vertex:
  "u' \<noteq> u \<Longrightarrow> map_find (assign adj u v w) u' = map_find adj u'"
  by (simp add: assign_def map_find_subscript_other)

lemma is_edge_assign_same: "is_edge (assign adj u v w) u v"
  using assign_same [of adj u v w] by (auto simp: is_edge_def)

lemma weight_assign_same: "weight (assign adj u v w) u v = w"
  using assign_same [of adj u v w] by (auto simp: weight_def)

text \<open>
  C1. On the undirected store, after \<open>add_edge(u, v, w)\<close> both \<open>is_edge(u,v)\<close> and
  \<open>is_edge(v,u)\<close> are true and \<open>weight(u,v) = weight(v,u) = w\<close>: the one call writes the
  entry and its mirror image.
\<close>

theorem add_edge_symmetric:
  "is_edge (add_edge adj u v w) u v \<and> is_edge (add_edge adj u v w) v u
   \<and> weight (add_edge adj u v w) u v = w \<and> weight (add_edge adj u v w) v u = w"
proof (cases "u = v")
  case True
  then show ?thesis
    by (simp add: add_edge_def is_edge_assign_same weight_assign_same)
next
  case False
  have keep: "map_find (add_edge adj u v w) u = map_find (assign adj u v w) u"
    using False by (simp add: add_edge_def assign_other_vertex)
  have "is_edge (add_edge adj u v w) u v"
    using keep is_edge_assign_same [of adj u v w] by (simp add: is_edge_def)
  moreover have "weight (add_edge adj u v w) u v = w"
    using keep weight_assign_same [of adj u v w] by (simp add: weight_def)
  ultimately show ?thesis
    by (simp add: add_edge_def is_edge_assign_same weight_assign_same)
qed

section \<open>The representation invariant and what keeps it\<close>

text \<open>
  Keys increase strictly along a map, so a key occurs once; every modifier and every
  constructor keeps this, for the outer map and for each neighbour map.
\<close>

lemma keys_subscript: "fst ` set (subscript m k d f) = insert k (fst ` set m)"
proof (induction m)
  case Nil
  show ?case by simp
next
  case (Cons p m)
  obtain a b where p: "p = (a, b)" by (cases p)
  show ?case
  proof (cases "k < a")
    case True
    then show ?thesis by (simp add: p)
  next
    case False
    show ?thesis
    proof (cases "k = a")
      case True
      then show ?thesis by (simp add: p)
    next
      case ne: False
      with False Cons.IH show ?thesis by (simp add: p insert_commute)
    qed
  qed
qed

lemma map_find_None_iff: "map_find m k = None \<longleftrightarrow> k \<notin> fst ` set m"
proof (induction m)
  case Nil
  show ?case by simp
next
  case (Cons p m)
  obtain a b where p: "p = (a, b)" by (cases p)
  from Cons.IH show ?case by (simp add: p)
qed

lemma map_inv_Cons: "map_inv ((a, b) # m) \<longleftrightarrow> (\<forall>k \<in> fst ` set m. a < k) \<and> map_inv m"
  by (simp add: map_inv_def)

lemma map_find_above:
  assumes "\<forall>x \<in> fst ` set m. (k::'k::linorder) < x"
  shows "map_find m k = None"
proof -
  have "k \<notin> fst ` set m"
  proof
    assume "k \<in> fst ` set m"
    with assms have "k < k" by (rule bspec)
    then show False by simp
  qed
  then show ?thesis by (simp add: map_find_None_iff)
qed

lemma map_inv_subscript: "map_inv m \<Longrightarrow> map_inv (subscript m k d f)"
proof (induction m)
  case Nil
  then show ?case by (simp add: map_inv_def)
next
  case (Cons p m)
  obtain a b where p: "p = (a, b)" by (cases p)
  from Cons.prems have above: "\<forall>x \<in> fst ` set m. a < x" and tl: "map_inv m"
    by (simp_all add: p map_inv_Cons)
  show ?case
  proof (cases "k < a")
    case True
    have "\<forall>x \<in> fst ` set m. k < x"
    proof
      fix x assume "x \<in> fst ` set m"
      with above have "a < x" by blast
      with True show "k < x" by (rule less_trans)
    qed
    with True above tl have "map_inv ((k, f d) # (a, b) # m)"
      by (simp add: map_inv_Cons)
    with True show ?thesis by (simp add: p)
  next
    case False
    show ?thesis
    proof (cases "k = a")
      case True
      from above tl have "map_inv ((a, f b) # m)"
        by (simp add: map_inv_Cons)
      with True show ?thesis by (simp add: p)
    next
      case ne: False
      with False have "a < k" by simp
      with above Cons.IH [OF tl] have "map_inv ((a, b) # subscript m k d f)"
        by (simp add: map_inv_Cons keys_subscript)
      with False ne show ?thesis by (simp add: p)
    qed
  qed
qed

lemma map_find_subscript:
  "map_inv m \<Longrightarrow>
   map_find (subscript m k d f) k = Some (f (case map_find m k of None \<Rightarrow> d | Some b \<Rightarrow> b))"
proof (induction m)
  case Nil
  then show ?case by simp
next
  case (Cons p m)
  obtain a b where p: "p = (a, b)" by (cases p)
  from Cons.prems have above: "\<forall>x \<in> fst ` set m. a < x" and tl: "map_inv m"
    by (simp_all add: p map_inv_Cons)
  show ?case
  proof (cases "k < a")
    case True
    then have "a \<noteq> k" by simp
    have "\<forall>x \<in> fst ` set m. k < x"
    proof
      fix x assume "x \<in> fst ` set m"
      with above have "a < x" by blast
      with True show "k < x" by (rule less_trans)
    qed
    then have "map_find m k = None" by (rule map_find_above)
    with True \<open>a \<noteq> k\<close> show ?thesis by (simp add: p)
  next
    case False
    show ?thesis
    proof (cases "k = a")
      case True
      then show ?thesis by (simp add: p)
    next
      case ne: False
      then have "a \<noteq> k" by simp
      with False ne Cons.IH [OF tl] show ?thesis by (simp add: p)
    qed
  qed
qed

lemma length_subscript:
  "map_inv m \<Longrightarrow>
   length (subscript m k d f) = (if map_find m k = None then Suc (length m) else length m)"
proof (induction m)
  case Nil
  then show ?case by simp
next
  case (Cons p m)
  obtain a b where p: "p = (a, b)" by (cases p)
  from Cons.prems have above: "\<forall>x \<in> fst ` set m. a < x" and tl: "map_inv m"
    by (simp_all add: p map_inv_Cons)
  show ?case
  proof (cases "k < a")
    case True
    then have "a \<noteq> k" by simp
    have "\<forall>x \<in> fst ` set m. k < x"
    proof
      fix x assume "x \<in> fst ` set m"
      with above have "a < x" by blast
      with True show "k < x" by (rule less_trans)
    qed
    then have "map_find m k = None" by (rule map_find_above)
    with True \<open>a \<noteq> k\<close> show ?thesis by (simp add: p)
  next
    case False
    show ?thesis
    proof (cases "k = a")
      case True
      then show ?thesis by (simp add: p)
    next
      case ne: False
      then have "a \<noteq> k" by simp
      with False ne Cons.IH [OF tl] show ?thesis by (simp add: p)
    qed
  qed
qed

lemma list_all_subscript:
  "list_all (\<lambda>p. P (snd p)) m \<Longrightarrow> P (f d) \<Longrightarrow> (\<And>b. P b \<Longrightarrow> P (f b)) \<Longrightarrow>
   list_all (\<lambda>p. P (snd p)) (subscript m k d f)"
  by (induction m) auto

lemma adj_inv_subscript:
  "adj_inv adj \<Longrightarrow> map_inv (f []) \<Longrightarrow> (\<And>e. map_inv e \<Longrightarrow> map_inv (f e)) \<Longrightarrow>
   adj_inv (subscript adj k [] f)"
  unfolding adj_inv_def
  by (intro conjI map_inv_subscript list_all_subscript) simp_all

lemma map_inv_Nil: "map_inv []"
  by (simp add: map_inv_def)

lemma map_inv_single: "map_inv [(k, v)]"
  by (simp add: map_inv_def)

lemma adj_inv_assign: "adj_inv adj \<Longrightarrow> adj_inv (assign adj u v w)"
  unfolding assign_def by (rule adj_inv_subscript) (simp_all add: map_inv_subscript map_inv_single)

lemma adj_inv_add_vertex: "adj_inv adj \<Longrightarrow> adj_inv (add_vertex adj v)"
  unfolding add_vertex_def by (rule adj_inv_subscript) (simp_all add: map_inv_Nil)

lemma adj_inv_add_edge: "adj_inv adj \<Longrightarrow> adj_inv (add_edge adj u v w)"
  by (simp add: add_edge_def adj_inv_assign)

lemma adj_inv_add_edge_directed: "adj_inv adj \<Longrightarrow> adj_inv (add_edge_directed adj u v w)"
  unfolding add_edge_directed_def
  by (rule adj_inv_subscript) (simp_all add: adj_inv_assign map_inv_Nil)

lemma adj_inv_empty: "adj_inv []"
  by (simp add: adj_inv_def map_inv_def)

lemma adj_inv_foldl:
  "adj_inv adj \<Longrightarrow> (\<And>g c. adj_inv g \<Longrightarrow> adj_inv (step g c)) \<Longrightarrow> adj_inv (foldl step adj cs)"
  by (induction cs arbitrary: adj) simp_all

lemma adj_inv_do_call: "adj_inv adj \<Longrightarrow> adj_inv (do_call adj c)"
  by (cases c) (simp_all add: adj_inv_add_vertex adj_inv_add_edge)

lemma adj_inv_do_call_directed: "adj_inv adj \<Longrightarrow> adj_inv (do_call_directed adj c)"
  by (cases c) (simp_all add: adj_inv_add_vertex adj_inv_add_edge_directed)

lemma adj_inv_run: "adj_inv (run cs)"
  unfolding run_def Adjacency_list_def
  by (rule adj_inv_foldl [OF adj_inv_empty]) (rule adj_inv_do_call)

lemma adj_inv_run_directed: "adj_inv (run_directed cs)"
  unfolding run_directed_def Adjacency_list_directed_def
  by (rule adj_inv_foldl [OF adj_inv_empty]) (rule adj_inv_do_call_directed)

section \<open>Edge insertion on the directed store\<close>

lemma assign_find:
  "adj_inv adj \<Longrightarrow>
   map_find (assign adj u v w) u = Some (subscript (adjacent adj u) v 0 (\<lambda>_. w))"
  by (simp add: assign_def adj_inv_def map_find_subscript adjacent_def split: option.split)

lemma add_edge_directed_find_source:
  assumes "adj_inv adj"
  shows "map_find (add_edge_directed adj u v w) u = Some (subscript (adjacent adj u) v 0 (\<lambda>_. w))"
proof (cases "u = v")
  case True
  have "adj_inv (assign adj u v w)" using assms by (rule adj_inv_assign)
  then have "map_inv (assign adj u v w)" by (simp add: adj_inv_def)
  then show ?thesis
    using True assign_find [OF assms, of u v w]
    by (simp add: add_edge_directed_def map_find_subscript)
next
  case False
  then show ?thesis
    using assign_find [OF assms, of u v w]
    by (simp add: add_edge_directed_def map_find_subscript_other)
qed

lemma add_edge_directed_find_dest:
  assumes "adj_inv adj" and "u \<noteq> v"
  shows "map_find (add_edge_directed adj u v w) v = Some (adjacent adj v)"
proof -
  have "adj_inv (assign adj u v w)" using assms(1) by (rule adj_inv_assign)
  then have inv: "map_inv (assign adj u v w)" by (simp add: adj_inv_def)
  have "map_find (assign adj u v w) v = map_find adj v"
    using assms(2) by (simp add: assign_other_vertex)
  then show ?thesis
    using map_find_subscript [OF inv, of v "[]" id]
    by (simp add: add_edge_directed_def adjacent_def split: option.split)
qed

text \<open>
  C2, as the code has it. On the directed store, after \<open>add_edge(u, v, w)\<close> the edge
  \<open>(u,v)\<close> exists with weight \<open>w\<close> and \<open>v\<close> is a vertex. When \<open>u \<noteq> v\<close>,
  \<open>is_edge(v,u)\<close> is what it was before the call, and a \<open>v\<close> that was absent is created
  with an empty neighbour set. (For \<open>u = v\<close> the entry written is its own reverse.)
\<close>

theorem add_edge_directed_effect:
  assumes "adj_inv adj"
  shows "is_edge (add_edge_directed adj u v w) u v
       \<and> weight (add_edge_directed adj u v w) u v = w
       \<and> is_vertex (add_edge_directed adj u v w) v
       \<and> (u \<noteq> v \<longrightarrow> is_edge (add_edge_directed adj u v w) v u = is_edge adj v u)
       \<and> (u \<noteq> v \<longrightarrow> \<not> is_vertex adj v \<longrightarrow>
            adjacent (add_edge_directed adj u v w) v = [] \<and> degree (add_edge_directed adj u v w) v = 0)"
proof -
  let ?g = "add_edge_directed adj u v w"
  have src: "map_find ?g u = Some (subscript (adjacent adj u) v 0 (\<lambda>_. w))"
    using assms by (rule add_edge_directed_find_source)
  have e: "is_edge ?g u v" and wt: "weight ?g u v = w"
    using src by (simp_all add: is_edge_def weight_def map_find_subscript_const)
  have vx: "is_vertex ?g v"
  proof (cases "u = v")
    case True
    with src show ?thesis by (simp add: is_vertex_def)
  next
    case False
    with assms show ?thesis by (simp add: is_vertex_def add_edge_directed_find_dest)
  qed
  have reverse: "is_edge ?g v u = is_edge adj v u" if "u \<noteq> v"
    using add_edge_directed_find_dest [OF assms that, of w]
    by (simp add: is_edge_def adjacent_def split: option.split)
  have fresh: "adjacent ?g v = [] \<and> degree ?g v = 0" if "u \<noteq> v" and "\<not> is_vertex adj v"
    using add_edge_directed_find_dest [OF assms that(1), of w] that(2)
    by (simp add: adjacent_def degree_def is_vertex_def)
  from e wt vx reverse fresh show ?thesis by blast
qed

theorem add_edge_directed_effect_witness:
  "adj_inv ([(2, [(1, 7)])] :: int Adj) \<and> (1::int) \<noteq> 3 \<and> \<not> is_vertex [(2, [(1, 7)])] (3::int)
   \<and> is_edge (add_edge_directed [(2, [(1, 7)])] (1::int) 3 5) 1 3
   \<and> weight (add_edge_directed [(2, [(1, 7)])] (1::int) 3 5) 1 3 = 5
   \<and> is_vertex (add_edge_directed [(2, [(1, 7)])] (1::int) 3 5) 3
   \<and> is_edge (add_edge_directed [(2, [(1, 7)])] (1::int) 3 5) 3 1 = is_edge [(2, [(1, 7)])] (3::int) 1
   \<and> adjacent (add_edge_directed [(2, [(1, 7)])] (1::int) 3 5) 3 = []
   \<and> degree (add_edge_directed [(2, [(1, 7)])] (1::int) 3 5) 3 = 0"
proof -
  have inv: "adj_inv ([(2, [(1, 7)])] :: int Adj)"
    by (simp add: adj_inv_def map_inv_def)
  have absent: "\<not> is_vertex [(2, [(1, 7)])] (3::int)"
    by (simp add: is_vertex_def)
  show ?thesis
    using inv absent add_edge_directed_effect [OF inv, of 1 3 5] by simp
qed

text \<open>
  The claim C2 without the restriction to \<open>u \<noteq> v\<close> fails on a self-loop: on the empty
  directed graph \<open>add_edge(1, 1, 5)\<close> turns \<open>is_edge(1,1)\<close> from false to true, and the
  vertex 1, absent before, gets the neighbour set holding 1.
\<close>

theorem add_edge_directed_self_loop_counterexample:
  "is_edge (add_edge_directed Adjacency_list_directed (1::int) 1 5) 1 1
     \<noteq> is_edge Adjacency_list_directed (1::int) 1
   \<and> \<not> is_vertex Adjacency_list_directed (1::int)
   \<and> adjacent (add_edge_directed Adjacency_list_directed (1::int) 1 5) 1 \<noteq> []"
  by (simp add: add_edge_directed_def assign_def Adjacency_list_directed_def is_edge_def
      is_vertex_def adjacent_def)

section \<open>Counting edges\<close>

lemma foldl_sizes:
  "foldl (\<lambda>edges v. edges + length (snd v)) n adj = n + sum_list (map (\<lambda>p. length (snd p)) adj)"
  by (induction adj arbitrary: n) simp_all

lemma degree_Cons_other: "a \<noteq> x \<Longrightarrow> degree ((a, b) # m) x = degree m x"
  by (simp add: degree_def)

lemma degree_sum_sizes:
  "map_inv adj \<Longrightarrow> degree_sum adj = sum_list (map (\<lambda>p. length (snd p)) adj)"
proof (induction adj)
  case Nil
  show ?case by (simp add: degree_sum_def vertices_def)
next
  case (Cons p m)
  obtain a b where p: "p = (a, b)" by (cases p)
  from Cons.prems have above: "\<forall>x \<in> fst ` set m. a < x" and tl: "map_inv m"
    by (simp_all add: p map_inv_Cons)
  have eq: "map (degree ((a, b) # m)) (map fst m) = map (degree m) (map fst m)"
  proof (rule map_cong [OF refl])
    fix x assume "x \<in> set (map fst m)"
    then have "x \<in> fst ` set m" by simp
    with above have "a < x" by blast
    then have "a \<noteq> x" by simp
    then show "degree ((a, b) # m) x = degree m x" by (rule degree_Cons_other)
  qed
  have "degree_sum ((a, b) # m)
          = degree ((a, b) # m) a + sum_list (map (degree ((a, b) # m)) (map fst m))"
    by (simp add: degree_sum_def vertices_def)
  also have "\<dots> = length b + sum_list (map (degree m) (map fst m))"
    unfolding eq by (simp add: degree_def)
  also have "\<dots> = length b + degree_sum m"
    by (simp add: degree_sum_def vertices_def)
  finally show ?case using Cons.IH [OF tl] by (simp add: p)
qed

text \<open>
  C3. For every undirected graph reached from the empty graph by \<open>add_vertex\<close> and
  \<open>add_edge\<close> calls, self-loops included, \<open>num_edge()\<close> is half the sum of the degrees
  of all vertices, the halving being that of \<^verbatim>\<open>size_t\<close> (\<^verbatim>\<open>edges >> 1\<close>).
\<close>

theorem num_edge_half_degree_sum:
  "num_edge (run cs) = degree_sum (run cs) div 2"
proof -
  have "map_inv (run cs)"
    using adj_inv_run [of cs] by (simp add: adj_inv_def)
  then have "degree_sum (run cs) = sum_list (map (\<lambda>p. length (snd p)) (run cs))"
    by (rule degree_sum_sizes)
  then show ?thesis
    by (simp add: num_edge_def foldl_sizes drop_bit_eq_div)
qed

text \<open>
  C4. For every directed graph, \<open>num_edge()\<close> is the sum over all vertices of the size
  of the vertex's neighbour set, not halved.
\<close>

theorem num_edge_directed_degree_sum:
  assumes "adj_inv adj"
  shows "num_edge_directed adj = degree_sum adj"
proof -
  from assms have "map_inv adj" by (simp add: adj_inv_def)
  then have "degree_sum adj = sum_list (map (\<lambda>p. length (snd p)) adj)"
    by (rule degree_sum_sizes)
  then show ?thesis
    by (simp add: num_edge_directed_def foldl_sizes)
qed

theorem num_edge_directed_degree_sum_witness:
  "adj_inv (run_directed [Add_edge (1::int) 2 1, Add_edge 2 3 1])
   \<and> num_edge_directed (run_directed [Add_edge (1::int) 2 1, Add_edge 2 3 1]) = 2
   \<and> degree_sum (run_directed [Add_edge (1::int) 2 1, Add_edge 2 3 1]) = 2"
proof -
  have g: "run_directed [Add_edge (1::int) 2 1, Add_edge 2 3 1] = [(1, [(2, 1)]), (2, [(3, 1)]), (3, [])]"
    by (simp add: run_directed_def Adjacency_list_directed_def add_edge_directed_def assign_def)
  have inv: "adj_inv (run_directed [Add_edge (1::int) 2 1, Add_edge 2 3 1])"
    unfolding g by (simp add: adj_inv_def map_inv_def)
  have "degree_sum (run_directed [Add_edge (1::int) 2 1, Add_edge 2 3 1]) = 2"
    unfolding g by (simp add: degree_sum_def vertices_def degree_def)
  with inv num_edge_directed_degree_sum [OF inv] show ?thesis by simp
qed

section \<open>Queries on what was never inserted\<close>

lemma is_vertex_iff: "is_vertex adj v \<longleftrightarrow> v \<in> fst ` set adj"
  by (simp add: is_vertex_def map_find_None_iff)

lemma keys_assign: "fst ` set (assign adj u v w) = insert u (fst ` set adj)"
  by (simp add: assign_def keys_subscript)

lemma keys_do_call: "fst ` set (do_call adj c) = fst ` set adj \<union> set (inserted c)"
  by (cases c) (auto simp: add_vertex_def add_edge_def keys_assign keys_subscript)

lemma keys_do_call_directed: "fst ` set (do_call_directed adj c) = fst ` set adj \<union> set (inserted c)"
  by (cases c) (auto simp: add_vertex_def add_edge_directed_def keys_assign keys_subscript)

lemma keys_foldl_do_call:
  "fst ` set (foldl do_call adj cs) = fst ` set adj \<union> set (concat (map inserted cs))"
  by (induction cs arbitrary: adj) (simp_all add: keys_do_call Un_assoc)

lemma keys_foldl_do_call_directed:
  "fst ` set (foldl do_call_directed adj cs) = fst ` set adj \<union> set (concat (map inserted cs))"
  by (induction cs arbitrary: adj) (simp_all add: keys_do_call_directed Un_assoc)

lemma is_vertex_run: "is_vertex (run cs) v \<longleftrightarrow> v \<in> set (concat (map inserted cs))"
  unfolding is_vertex_iff run_def Adjacency_list_def keys_foldl_do_call by simp

lemma is_vertex_run_directed:
  "is_vertex (run_directed cs) v \<longleftrightarrow> v \<in> set (concat (map inserted cs))"
  unfolding is_vertex_iff run_directed_def Adjacency_list_directed_def keys_foldl_do_call_directed
  by simp

lemma absent_vertex_sentinels:
  "\<not> is_vertex adj u \<Longrightarrow> degree adj u = 0 \<and> \<not> is_edge adj u v \<and> weight adj u v = 0"
  by (simp add: is_vertex_def degree_def is_edge_def weight_def)

lemma non_neighbour_sentinels:
  "v \<notin> fst ` set (adjacent adj u) \<Longrightarrow> \<not> is_edge adj u v \<and> weight adj u v = 0"
proof (cases "map_find adj u")
  case None
  then show ?thesis by (simp add: is_edge_def weight_def)
next
  case (Some edges)
  assume "v \<notin> fst ` set (adjacent adj u)"
  with Some have "v \<notin> fst ` set edges" by (simp add: adjacent_def)
  then have "map_find edges v = None" by (simp add: map_find_None_iff)
  with Some show ?thesis by (simp add: is_edge_def weight_def)
qed

text \<open>
  C5. An identifier \<open>u\<close> that no call inserted is not a vertex, has degree 0, and for
  every \<open>v\<close> the pair \<open>(u,v)\<close> is not an edge and has weight 0, on the undirected and on
  the directed store. More generally, on any graph, a \<open>v'\<close> that is not among the
  neighbours of \<open>u'\<close> gives \<open>is_edge(u',v') = false\<close> and \<open>weight(u',v') = 0\<close>. The
  queries are total functions: there is no error result to return.
\<close>

theorem missing_queries_give_sentinels:
  "(u \<notin> set (concat (map inserted cs)) \<longrightarrow>
      \<not> is_vertex (run cs) u \<and> degree (run cs) u = 0
      \<and> \<not> is_edge (run cs) u v \<and> weight (run cs) u v = 0
      \<and> \<not> is_vertex (run_directed cs) u \<and> degree (run_directed cs) u = 0
      \<and> \<not> is_edge (run_directed cs) u v \<and> weight (run_directed cs) u v = 0)
   \<and> (v' \<notin> fst ` set (adjacent adj u') \<longrightarrow> \<not> is_edge adj u' v' \<and> weight adj u' v' = 0)"
proof (intro conjI impI)
  assume fresh: "u \<notin> set (concat (map inserted cs))"
  then have a: "\<not> is_vertex (run cs) u" and b: "\<not> is_vertex (run_directed cs) u"
    by (simp_all only: is_vertex_run is_vertex_run_directed not_False_eq_True)
  show "\<not> is_vertex (run cs) u" by (rule a)
  show "\<not> is_vertex (run_directed cs) u" by (rule b)
  show "degree (run cs) u = 0" "\<not> is_edge (run cs) u v" "weight (run cs) u v = 0"
    using absent_vertex_sentinels [OF a, of v] by simp_all
  show "degree (run_directed cs) u = 0" "\<not> is_edge (run_directed cs) u v"
    "weight (run_directed cs) u v = 0"
    using absent_vertex_sentinels [OF b, of v] by simp_all
next
  assume "v' \<notin> fst ` set (adjacent adj u')"
  then show "\<not> is_edge adj u' v'" "weight adj u' v' = 0"
    using non_neighbour_sentinels [of v' adj u'] by simp_all
qed

theorem missing_queries_give_sentinels_witness:
  "(3::int) \<notin> set (concat (map inserted [Add_edge 1 2 5]))
   \<and> \<not> is_vertex (run [Add_edge (1::int) 2 5]) 3 \<and> degree (run [Add_edge (1::int) 2 5]) 3 = 0
   \<and> \<not> is_edge (run [Add_edge (1::int) 2 5]) 3 1 \<and> weight (run [Add_edge (1::int) 2 5]) 3 1 = 0
   \<and> \<not> is_vertex (run_directed [Add_edge (1::int) 2 5]) 3
   \<and> degree (run_directed [Add_edge (1::int) 2 5]) 3 = 0
   \<and> \<not> is_edge (run_directed [Add_edge (1::int) 2 5]) 3 1
   \<and> weight (run_directed [Add_edge (1::int) 2 5]) 3 1 = 0
   \<and> (1::int) \<notin> fst ` set (adjacent [(1, [(2, 5)]), (2, [])] 2)
   \<and> \<not> is_edge [(1, [(2, 5)]), (2, [])] (2::int) 1
   \<and> weight [(1, [(2, 5)]), (2, [])] (2::int) 1 = 0"
proof -
  have h1: "(3::int) \<notin> set (concat (map inserted [Add_edge 1 2 5]))" by simp
  have h2: "(1::int) \<notin> fst ` set (adjacent [(1, [(2, 5)]), (2, [])] 2)"
    by (simp add: adjacent_def)
  show ?thesis
    using h1 h2
      missing_queries_give_sentinels
        [of "3::int" "[Add_edge 1 2 5]" 1 "1::int" "[(1, [(2, 5)]), (2, [])]" 2]
    by simp
qed

section \<open>Construction is repeated insertion\<close>

text \<open>
  C6. Each constructor of the undirected store builds the graph that \<open>add_edge\<close>, called
  once per record in order from the empty graph, builds (weight 1 for a record without
  weight); each constructor of the directed store does so with the directed \<open>add_edge\<close>.
\<close>

theorem constructors_repeat_add_edge:
  "Adjacency_list_UEdge ul =
     foldl (\<lambda>adj edge. case edge of UEdge s d \<Rightarrow> add_edge adj s d 1) Adjacency_list ul
   \<and> Adjacency_list_WEdge wl =
     foldl (\<lambda>adj edge. case edge of WEdge s d w \<Rightarrow> add_edge adj s d w) Adjacency_list wl
   \<and> Adjacency_list_range source dest get_weight es =
     foldl (\<lambda>adj e. add_edge adj (source e) (dest e) (get_weight e)) Adjacency_list es
   \<and> Adjacency_list_directed_UEdge ul =
     foldl (\<lambda>adj edge. case edge of UEdge s d \<Rightarrow> add_edge_directed adj s d 1)
       Adjacency_list_directed ul
   \<and> Adjacency_list_directed_WEdge wl =
     foldl (\<lambda>adj edge. case edge of WEdge s d w \<Rightarrow> add_edge_directed adj s d w)
       Adjacency_list_directed wl
   \<and> Adjacency_list_directed_range source dest get_weight es =
     foldl (\<lambda>adj e. add_edge_directed adj (source e) (dest e) (get_weight e))
       Adjacency_list_directed es"
  unfolding Adjacency_list_UEdge_def Adjacency_list_WEdge_def Adjacency_list_range_def
    Adjacency_list_directed_UEdge_def Adjacency_list_directed_WEdge_def
    Adjacency_list_directed_range_def Adjacency_list_def Adjacency_list_directed_def
    add_edge_def add_edge_directed_def
  by simp

section \<open>Vertex iteration\<close>

lemma vertices_sorted:
  assumes "adj_inv adj"
  shows "sorted_wrt (<) (vertices adj)" and "sorted_wrt (>) (rvertices adj)"
proof -
  from assms show fwd: "sorted_wrt (<) (vertices adj)"
    by (simp add: adj_inv_def map_inv_def vertices_def)
  have "rvertices adj = rev (vertices adj)"
    by (simp add: rvertices_def vertices_def rev_map)
  with fwd show "sorted_wrt (>) (rvertices adj)"
    by (simp add: sorted_wrt_rev)
qed

lemma vertices_are_the_vertex_set: "set (vertices adj) = {v. is_vertex adj v}"
  by (auto simp: vertices_def is_vertex_iff)

lemma rvertices_rev: "rvertices adj = rev (vertices adj)"
  by (simp add: rvertices_def vertices_def rev_map)

lemma length_vertices: "length (vertices adj) = num_vertex adj"
  by (simp add: vertices_def num_vertex_def)

lemma vertex_iteration_complete:
  assumes "adj_inv adj"
  shows "sorted_wrt (<) (vertices adj) \<and> set (vertices adj) = {v. is_vertex adj v}
       \<and> length (vertices adj) = num_vertex adj
       \<and> sorted_wrt (>) (rvertices adj) \<and> rvertices adj = rev (vertices adj)
       \<and> set (rvertices adj) = {v. is_vertex adj v}"
proof -
  have "set (rvertices adj) = set (vertices adj)"
    by (simp only: rvertices_rev set_rev)
  then have "set (rvertices adj) = {v. is_vertex adj v}"
    by (simp only: vertices_are_the_vertex_set)
  with vertices_sorted [OF assms] show ?thesis
    by (simp only: vertices_are_the_vertex_set length_vertices rvertices_rev [symmetric] simp_thms)
qed

lemma vertices_run: "set (vertices (run cs)) = set (concat (map inserted cs))"
proof -
  have "set (vertices (run cs)) = {v. is_vertex (run cs) v}"
    by (rule vertices_are_the_vertex_set)
  also have "\<dots> = set (concat (map inserted cs))"
    by (simp only: is_vertex_run Collect_mem_eq)
  finally show ?thesis .
qed

lemma vertices_run_directed:
  "set (vertices (run_directed cs)) = set (concat (map inserted cs))"
proof -
  have "set (vertices (run_directed cs)) = {v. is_vertex (run_directed cs) v}"
    by (rule vertices_are_the_vertex_set)
  also have "\<dots> = set (concat (map inserted cs))"
    by (simp only: is_vertex_run_directed Collect_mem_eq)
  finally show ?thesis .
qed

text \<open>
  C7. On the undirected and on the directed store, forward vertex iteration yields the
  vertex identifiers of the graph, all of them and each once (they are the identifiers
  for which \<open>is_vertex\<close> holds, which are the identifiers the calls inserted, and there are
  \<open>num_vertex()\<close> of them), in strictly increasing order. Reverse iteration yields the
  same identifiers in the opposite, strictly decreasing order. After inserting the
  vertices 3, 1, 2 forward iteration yields 1, 2, 3 and reverse iteration 3, 2, 1.
\<close>

theorem vertex_iteration_ordered:
  "sorted_wrt (<) (vertices (run cs))
   \<and> set (vertices (run cs)) = {v. is_vertex (run cs) v}
   \<and> set (vertices (run cs)) = set (concat (map inserted cs))
   \<and> length (vertices (run cs)) = num_vertex (run cs)
   \<and> sorted_wrt (>) (rvertices (run cs))
   \<and> rvertices (run cs) = rev (vertices (run cs))
   \<and> set (rvertices (run cs)) = {v. is_vertex (run cs) v}
   \<and> sorted_wrt (<) (vertices (run_directed cs))
   \<and> set (vertices (run_directed cs)) = {v. is_vertex (run_directed cs) v}
   \<and> set (vertices (run_directed cs)) = set (concat (map inserted cs))
   \<and> length (vertices (run_directed cs)) = num_vertex (run_directed cs)
   \<and> sorted_wrt (>) (rvertices (run_directed cs))
   \<and> rvertices (run_directed cs) = rev (vertices (run_directed cs))
   \<and> set (rvertices (run_directed cs)) = {v. is_vertex (run_directed cs) v}
   \<and> vertices (run [Add_vertex (3::int), Add_vertex 1, Add_vertex 2]) = [1, 2, 3]
   \<and> rvertices (run [Add_vertex (3::int), Add_vertex 1, Add_vertex 2]) = [3, 2, 1]"
proof -
  have g: "run [Add_vertex (3::int), Add_vertex 1, Add_vertex 2] = [(1, []), (2, []), (3, [])]"
    by (simp add: run_def Adjacency_list_def add_vertex_def)
  have ex: "vertices (run [Add_vertex (3::int), Add_vertex 1, Add_vertex 2]) = [1, 2, 3]"
    "rvertices (run [Add_vertex (3::int), Add_vertex 1, Add_vertex 2]) = [3, 2, 1]"
    unfolding g by (simp_all add: vertices_def rvertices_def)
  from vertex_iteration_complete [OF adj_inv_run, of cs]
    vertex_iteration_complete [OF adj_inv_run_directed, of cs]
    vertices_run [of cs] vertices_run_directed [of cs] ex
  show ?thesis by blast
qed

section \<open>Inserting a vertex twice\<close>

lemma subscript_id_twice: "subscript (subscript m k d id) k d id = subscript m k d id"
  by (induction m) auto

lemma subscript_id_present:
  "map_inv m \<Longrightarrow> map_find m k \<noteq> None \<Longrightarrow> subscript m k d id = m"
proof (induction m)
  case Nil
  then show ?case by simp
next
  case (Cons p m)
  obtain a b where p: "p = (a, b)" by (cases p)
  from Cons.prems have above: "\<forall>x \<in> fst ` set m. a < x" and tl: "map_inv m"
    by (simp_all add: p map_inv_Cons)
  show ?case
  proof (cases "k = a")
    case True
    then show ?thesis by (simp add: p)
  next
    case False
    with Cons.prems(2) have here: "map_find m k \<noteq> None" by (simp add: p)
    then have "k \<in> fst ` set m" by (simp add: map_find_None_iff)
    with above have "a < k" by blast
    then have "\<not> k < a" by simp
    with False Cons.IH [OF tl here] show ?thesis by (simp add: p)
  qed
qed

text \<open>
  C8. A second \<open>add_vertex(v)\<close> right after the first leaves \<open>num_vertex()\<close> and
  \<open>degree(v)\<close> as the first call left them, and \<open>add_vertex\<close> on a vertex that is
  present changes neither its neighbour set nor anything else.
\<close>

theorem add_vertex_idempotent:
  "num_vertex (add_vertex (add_vertex adj v) v) = num_vertex (add_vertex adj v)
   \<and> degree (add_vertex (add_vertex adj v) v) v = degree (add_vertex adj v) v
   \<and> (adj_inv adj \<and> is_vertex adj v \<longrightarrow>
        adjacent (add_vertex adj v) v = adjacent adj v \<and> add_vertex adj v = adj)"
  by (simp add: add_vertex_def subscript_id_twice subscript_id_present adj_inv_def is_vertex_def)

theorem add_vertex_idempotent_witness:
  "adj_inv ([(1, [(2, 5)]), (2, [(1, 5)])] :: int Adj)
   \<and> is_vertex [(1, [(2, 5)]), (2, [(1, 5)])] (2::int)
   \<and> adjacent (add_vertex [(1, [(2, 5)]), (2, [(1, 5)])] (2::int)) 2 = [(1, 5)]
   \<and> num_vertex (add_vertex (add_vertex [(1, [(2, 5)]), (2, [(1, 5)])] (2::int)) 2) = 2
   \<and> degree (add_vertex (add_vertex [(1, [(2, 5)]), (2, [(1, 5)])] (2::int)) 2) 2 = 1"
proof -
  have inv: "adj_inv ([(1, [(2, 5)]), (2, [(1, 5)])] :: int Adj)"
    by (simp add: adj_inv_def map_inv_def)
  have v: "is_vertex [(1, [(2, 5)]), (2, [(1, 5)])] (2::int)"
    by (simp add: is_vertex_def)
  show ?thesis
    using inv v add_vertex_idempotent [of "[(1, [(2, 5)]), (2, [(1, 5)])]" "2::int"]
    by (simp add: adjacent_def num_vertex_def degree_def)
qed

section \<open>The minimum vertex\<close>

text \<open>
  C9. On a non-empty graph \<open>min_vertex()\<close> is a vertex and no vertex is smaller; on the
  empty graph it is the value-initialised identifier.
\<close>

theorem min_vertex_least:
  assumes "adj_inv adj"
  shows "(0 < num_vertex adj \<longrightarrow>
            is_vertex adj (min_vertex dflt adj)
            \<and> (\<forall>v. is_vertex adj v \<longrightarrow> min_vertex dflt adj \<le> v))
       \<and> (num_vertex adj = 0 \<longrightarrow> min_vertex dflt adj = dflt)"
proof (cases adj)
  case Nil
  then show ?thesis by (simp add: num_vertex_def min_vertex_def)
next
  case (Cons p m)
  obtain a b where p: "p = (a, b)" by (cases p)
  from assms have "map_inv ((a, b) # m)" by (simp add: adj_inv_def Cons p)
  then have above: "\<forall>x \<in> fst ` set m. a < x" by (simp add: map_inv_Cons)
  have least: "a \<le> v" if "is_vertex adj v" for v
  proof -
    from that have "v = a \<or> v \<in> fst ` set m"
      by (simp add: is_vertex_iff Cons p)
    with above show ?thesis by auto
  qed
  have "min_vertex dflt adj = a" by (simp add: min_vertex_def Cons p)
  moreover have "is_vertex adj a" by (simp add: is_vertex_def Cons p)
  ultimately show ?thesis using least by (simp add: num_vertex_def Cons)
qed

theorem min_vertex_least_witness:
  "adj_inv (run [Add_edge (3::int) 2 7]) \<and> 0 < num_vertex (run [Add_edge (3::int) 2 7])
   \<and> min_vertex 0 (run [Add_edge (3::int) 2 7]) = 2
   \<and> is_vertex (run [Add_edge (3::int) 2 7]) 2
   \<and> is_vertex (run [Add_edge (3::int) 2 7]) 3 \<and> (2::int) \<le> 3
   \<and> adj_inv (Adjacency_list :: int Adj) \<and> num_vertex (Adjacency_list :: int Adj) = 0
   \<and> min_vertex 0 (Adjacency_list :: int Adj) = 0"
proof -
  have g: "run [Add_edge (3::int) 2 7] = [(2, [(3, 7)]), (3, [(2, 7)])]"
    by (simp add: run_def Adjacency_list_def add_edge_def assign_def)
  have inv: "adj_inv (run [Add_edge (3::int) 2 7])"
    unfolding g by (simp add: adj_inv_def map_inv_def)
  have size: "0 < num_vertex (run [Add_edge (3::int) 2 7])"
    unfolding g by (simp add: num_vertex_def)
  have m: "min_vertex 0 (run [Add_edge (3::int) 2 7]) = 2"
    unfolding g by (simp add: min_vertex_def)
  have inv0: "adj_inv (Adjacency_list :: int Adj)"
    by (simp add: Adjacency_list_def adj_inv_empty)
  have size0: "num_vertex (Adjacency_list :: int Adj) = 0"
    by (simp add: Adjacency_list_def num_vertex_def)
  have v3: "is_vertex (run [Add_edge (3::int) 2 7]) 3"
    unfolding g by (simp add: is_vertex_def)
  show ?thesis
    using inv size m v3 inv0 size0
      min_vertex_least [OF inv, of 0] min_vertex_least [OF inv0, of 0]
    by simp
qed

section \<open>Self-loops on the undirected store\<close>

lemma map_find_Some_mem: "map_find m k = Some b \<Longrightarrow> (k, b) \<in> set m"
  by (induction m) (auto split: if_splits)

lemma mem_map_find:
  "map_inv m \<Longrightarrow> (k, b) \<in> set m \<Longrightarrow> map_find m k = Some b"
proof (induction m)
  case Nil
  then show ?case by simp
next
  case (Cons p m)
  obtain a c where p: "p = (a, c)" by (cases p)
  from Cons.prems(1) have above: "\<forall>x \<in> fst ` set m. a < x" and tl: "map_inv m"
    by (simp_all add: p map_inv_Cons)
  show ?case
  proof (cases "(k, b) = (a, c)")
    case True
    then show ?thesis by (simp add: p)
  next
    case False
    with Cons.prems(2) have mem: "(k, b) \<in> set m" by (auto simp: p)
    then have "k \<in> fst ` set m" by force
    with above have "a < k" by blast
    then have "a \<noteq> k" by simp
    with Cons.IH [OF tl mem] show ?thesis by (simp add: p)
  qed
qed

lemma map_inv_adjacent: "adj_inv adj \<Longrightarrow> map_inv (adjacent adj v)"
proof (cases "map_find adj v")
  case None
  then show ?thesis by (simp add: adjacent_def map_inv_Nil)
next
  case (Some edges)
  assume "adj_inv adj"
  then have "\<forall>p \<in> set adj. map_inv (snd p)" by (simp add: adj_inv_def list_all_iff)
  moreover from Some have "(v, edges) \<in> set adj" by (rule map_find_Some_mem)
  ultimately have "map_inv edges" by force
  with Some show ?thesis by (simp add: adjacent_def)
qed

lemma is_edge_adjacent: "is_edge adj u v \<longleftrightarrow> map_find (adjacent adj u) v \<noteq> None"
  by (simp add: is_edge_def adjacent_def split: option.split)

lemma degree_adjacent: "degree adj v = length (adjacent adj v)"
  by (simp add: degree_def adjacent_def split: option.split)

lemma adjacent_assign_same:
  "adj_inv adj \<Longrightarrow> adjacent (assign adj u v w) u = subscript (adjacent adj u) v 0 (\<lambda>_. w)"
  by (simp add: adjacent_def [of "assign adj u v w"] assign_find)

lemma subscript_const_twice:
  "subscript (subscript m k d (\<lambda>_. w)) k d (\<lambda>_. w) = subscript m k d (\<lambda>_. w)"
  by (induction m) auto

lemma adjacent_add_self_loop:
  assumes "adj_inv adj"
  shows "adjacent (add_edge adj v v w) v = subscript (adjacent adj v) v 0 (\<lambda>_. w)"
proof -
  have "adj_inv (assign adj v v w)" using assms by (rule adj_inv_assign)
  then have "adjacent (add_edge adj v v w) v
             = subscript (adjacent (assign adj v v w) v) v 0 (\<lambda>_. w)"
    unfolding add_edge_def by (rule adjacent_assign_same)
  also have "\<dots> = subscript (subscript (adjacent adj v) v 0 (\<lambda>_. w)) v 0 (\<lambda>_. w)"
    using assms by (simp add: adjacent_assign_same)
  finally show ?thesis by (simp add: subscript_const_twice)
qed

lemma sum_list_indicator:
  "distinct ks \<Longrightarrow>
   sum_list (map (\<lambda>k. if k = v then 1 else 0) ks) = (if v \<in> set ks then 1 else (0::nat))"
  by (induction ks) auto

lemma map_inv_distinct: "map_inv m \<Longrightarrow> distinct (map fst m)"
  by (simp add: map_inv_def strict_sorted_iff)

lemma length_keys: "map_inv m \<Longrightarrow> length m = card (fst ` set m)"
proof -
  assume "map_inv m"
  then have "distinct (map fst m)" by (rule map_inv_distinct)
  then have "card (set (map fst m)) = length (map fst m)" by (rule distinct_card)
  then show ?thesis by simp
qed

lemma only_self_loop_sizes:
  assumes inv: "adj_inv adj"
    and only: "\<forall>u x. is_edge adj u x \<longleftrightarrow> (u = v \<and> x = v)"
    and mem: "(k, edges) \<in> set adj"
  shows "length edges = (if k = v then 1 else 0)"
proof -
  from inv have "map_inv adj" by (simp add: adj_inv_def)
  then have find: "map_find adj k = Some edges" using mem by (rule mem_map_find)
  then have adj_k: "adjacent adj k = edges" by (simp add: adjacent_def)
  have "map_inv edges" using map_inv_adjacent [OF inv, of k] by (simp add: adj_k)
  then have len: "length edges = card (fst ` set edges)" by (rule length_keys)
  have keys: "x \<in> fst ` set edges \<longleftrightarrow> (k = v \<and> x = v)" for x
    using only is_edge_adjacent [of adj k x] by (simp add: adj_k map_find_None_iff)
  have "fst ` set edges = (if k = v then {v} else {})"
  proof (rule set_eqI)
    fix x
    show "x \<in> fst ` set edges \<longleftrightarrow> x \<in> (if k = v then {v} else {})"
      using keys [of x] by simp
  qed
  then have "card (fst ` set edges) = (if k = v then 1 else 0)"
    by simp
  with len show ?thesis by simp
qed

lemma only_self_loop_degree_sum:
  assumes inv: "adj_inv adj"
    and only: "\<forall>u x. is_edge adj u x \<longleftrightarrow> (u = v \<and> x = v)"
  shows "degree_sum adj = 1"
proof -
  from inv have m: "map_inv adj" by (simp add: adj_inv_def)
  have eq: "map (\<lambda>p. length (snd p)) adj = map (\<lambda>p. if fst p = v then 1 else 0) adj"
  proof (rule map_cong [OF refl])
    fix p assume "p \<in> set adj"
    then have "(fst p, snd p) \<in> set adj" by simp
    then show "length (snd p) = (if fst p = v then 1 else 0)"
      by (rule only_self_loop_sizes [OF inv only])
  qed
  have "degree_sum adj = sum_list (map (\<lambda>p. length (snd p)) adj)"
    using m by (rule degree_sum_sizes)
  also have "\<dots> = sum_list (map (\<lambda>p. if fst p = v then 1 else 0) adj)"
    by (simp only: eq)
  also have "\<dots> = sum_list (map (\<lambda>k. if k = v then 1 else 0) (map fst adj))"
    by (simp add: comp_def)
  also have "\<dots> = (if v \<in> set (map fst adj) then 1 else 0)"
    using map_inv_distinct [OF m] by (rule sum_list_indicator)
  also have "\<dots> = 1"
  proof -
    from only have "is_edge adj v v" by simp
    then have "is_vertex adj v" by (auto simp: is_edge_def is_vertex_def split: option.splits)
    then show ?thesis by (simp add: is_vertex_iff)
  qed
  finally show ?thesis .
qed

text \<open>
  C10. On the undirected store \<open>add_edge(v, v, w)\<close> puts the single entry \<open>v \<mapsto> w\<close>
  into the neighbour map of \<open>v\<close>, so the degree of \<open>v\<close> grows by one when the loop is new
  and not at all when it is overwritten. A graph whose only edge is the self-loop at \<open>v\<close>
  has degree sum 1, which is odd, and \<open>num_edge()\<close> is 0 for it.
\<close>

theorem self_loop_counted_once:
  assumes "adj_inv adj"
  shows "adjacent (add_edge adj v v w) v = subscript (adjacent adj v) v 0 (\<lambda>_. w)
       \<and> degree (add_edge adj v v w) v = (if is_edge adj v v then degree adj v else degree adj v + 1)
       \<and> degree (add_edge adj v v w) v \<le> degree adj v + 1
       \<and> ((\<forall>u x. is_edge adj u x \<longleftrightarrow> (u = v \<and> x = v)) \<longrightarrow>
            degree_sum adj = 1 \<and> odd (degree_sum adj) \<and> num_edge adj = 0)"
proof -
  have nb: "adjacent (add_edge adj v v w) v = subscript (adjacent adj v) v 0 (\<lambda>_. w)"
    using assms by (rule adjacent_add_self_loop)
  have "map_inv (adjacent adj v)" using assms by (rule map_inv_adjacent)
  then have deg: "degree (add_edge adj v v w) v
                  = (if is_edge adj v v then degree adj v else degree adj v + 1)"
    by (simp add: degree_adjacent nb length_subscript is_edge_adjacent)
  have one: "degree_sum adj = 1 \<and> odd (degree_sum adj) \<and> num_edge adj = 0"
    if only: "\<forall>u x. is_edge adj u x \<longleftrightarrow> (u = v \<and> x = v)"
  proof -
    have s: "degree_sum adj = 1" using assms only by (rule only_self_loop_degree_sum)
    from assms have "map_inv adj" by (simp add: adj_inv_def)
    then have "num_edge adj = degree_sum adj div 2"
      by (simp add: num_edge_def foldl_sizes drop_bit_eq_div degree_sum_sizes)
    with s show ?thesis by simp
  qed
  from nb deg one show ?thesis by simp
qed

theorem self_loop_counted_once_witness:
  "adj_inv ([(1, [(1, 5)]), (2, [])] :: int Adj)
   \<and> (\<forall>u x. is_edge [(1, [(1, 5)]), (2, [])] u x = (u = (1::int) \<and> x = 1))
   \<and> degree_sum ([(1, [(1, 5)]), (2, [])] :: int Adj) = 1
   \<and> num_edge ([(1, [(1, 5)]), (2, [])] :: int Adj) = 0
   \<and> degree (add_edge [(1, [(1, 5)]), (2, [])] (1::int) 1 9) 1 = 1
   \<and> adjacent (add_edge [(1, [(1, 5)]), (2, [])] (1::int) 1 9) 1 = [(1, 9)]"
proof -
  have inv: "adj_inv ([(1, [(1, 5)]), (2, [])] :: int Adj)"
    by (simp add: adj_inv_def map_inv_def)
  have only: "\<forall>u x. is_edge [(1, [(1, 5)]), (2, [])] u x = (u = (1::int) \<and> x = 1)"
    by (auto simp: is_edge_def)
  show ?thesis
    using inv only self_loop_counted_once [OF inv, of 1 9]
    by (simp add: adjacent_def is_edge_def degree_def)
qed

section \<open>When the halving is exact\<close>

text \<open>
  Without self-loops every \<open>add_edge\<close> writes two entries or overwrites two, so the
  number of stored entries stays even and \<open>num_edge()\<close> is exactly half the degree sum.
  With C10 this locates the flooring of \<open>num_edge()\<close> in the self-loops alone.
\<close>

lemma adjacent_Cons_other: "a \<noteq> k \<Longrightarrow> adjacent ((a, b) # m) k = adjacent m k"
  by (simp add: adjacent_def)

lemma sizes_subscript:
  "map_inv m \<Longrightarrow>
   sum_list (map (\<lambda>p. length (snd p)) (subscript m k [] f)) + length (adjacent m k)
   = sum_list (map (\<lambda>p. length (snd p)) m) + length (f (adjacent m k))"
proof (induction m)
  case Nil
  show ?case by (simp add: adjacent_def)
next
  case (Cons p m)
  obtain a b where p: "p = (a, b)" by (cases p)
  from Cons.prems have above: "\<forall>x \<in> fst ` set m. a < x" and tl: "map_inv m"
    by (simp_all add: p map_inv_Cons)
  show ?case
  proof (cases "k < a")
    case True
    then have ne: "a \<noteq> k" by simp
    have "\<forall>x \<in> fst ` set m. k < x"
    proof
      fix x assume "x \<in> fst ` set m"
      with above have "a < x" by blast
      with True show "k < x" by (rule less_trans)
    qed
    then have "map_find m k = None" by (rule map_find_above)
    with ne have "adjacent ((a, b) # m) k = []" by (simp add: adjacent_def)
    with True show ?thesis by (simp add: p)
  next
    case False
    show ?thesis
    proof (cases "k = a")
      case True
      then have "adjacent ((a, b) # m) k = b" by (simp add: adjacent_def)
      with True show ?thesis by (simp add: p)
    next
      case ne: False
      then have "adjacent ((a, b) # m) k = adjacent m k" by (simp add: adjacent_def)
      with False ne Cons.IH [OF tl] show ?thesis by (simp add: p)
    qed
  qed
qed

lemma sizes_add_vertex:
  assumes "adj_inv adj"
  shows "sum_list (map (\<lambda>p. length (snd p)) (add_vertex adj v))
         = sum_list (map (\<lambda>p. length (snd p)) adj)"
proof -
  from assms have "map_inv adj" by (simp add: adj_inv_def)
  from sizes_subscript [OF this, of v id] show ?thesis by (simp add: add_vertex_def)
qed

lemma sizes_assign:
  assumes "adj_inv adj"
  shows "sum_list (map (\<lambda>p. length (snd p)) (assign adj u v w))
         = sum_list (map (\<lambda>p. length (snd p)) adj) + (if is_edge adj u v then 0 else 1)"
proof -
  from assms have m: "map_inv adj" by (simp add: adj_inv_def)
  have e: "map_inv (adjacent adj u)" using assms by (rule map_inv_adjacent)
  have "length (subscript (adjacent adj u) v 0 (\<lambda>_. w))
        = length (adjacent adj u) + (if is_edge adj u v then 0 else 1)"
    by (simp add: length_subscript [OF e] is_edge_adjacent)
  with sizes_subscript [OF m, of u "\<lambda>edges. subscript edges v 0 (\<lambda>_. w)"]
  show ?thesis by (simp add: assign_def)
qed

lemma is_edge_assign:
  assumes "adj_inv adj"
  shows "is_edge (assign adj u v w) a b \<longleftrightarrow> is_edge adj a b \<or> (a = u \<and> b = v)"
proof (cases "a = u")
  case True
  have nb: "adjacent (assign adj u v w) u = subscript (adjacent adj u) v 0 (\<lambda>_. w)"
    using assms by (rule adjacent_assign_same)
  show ?thesis
  proof (cases "b = v")
    case True
    with \<open>a = u\<close> show ?thesis by (simp add: is_edge_assign_same)
  next
    case False
    with \<open>a = u\<close> show ?thesis
      by (simp add: is_edge_adjacent nb map_find_subscript_other)
  qed
next
  case False
  then show ?thesis by (simp add: is_edge_def assign_other_vertex)
qed

lemma is_edge_add_vertex:
  assumes "adj_inv adj"
  shows "is_edge (add_vertex adj v) a b \<longleftrightarrow> is_edge adj a b"
proof (cases "a = v")
  case True
  from assms have "map_inv adj" by (simp add: adj_inv_def)
  then have "map_find (add_vertex adj v) v = Some (adjacent adj v)"
    by (simp add: add_vertex_def map_find_subscript adjacent_def)
  then have "is_edge (add_vertex adj v) v b \<longleftrightarrow> map_find (adjacent adj v) b \<noteq> None"
    by (simp add: is_edge_def)
  also have "\<dots> \<longleftrightarrow> is_edge adj v b"
    by (simp only: is_edge_adjacent)
  finally show ?thesis using True by simp
next
  case False
  then show ?thesis by (simp add: is_edge_def add_vertex_def map_find_subscript_other)
qed

lemma loop_free_step:
  assumes inv: "adj_inv adj"
    and sym: "\<forall>a b. is_edge adj a b \<longrightarrow> is_edge adj b a"
    and ev: "even (sum_list (map (\<lambda>p. length (snd p)) adj))"
    and lf: "loop_free c"
  shows "(\<forall>a b. is_edge (do_call adj c) a b \<longrightarrow> is_edge (do_call adj c) b a)
       \<and> even (sum_list (map (\<lambda>p. length (snd p)) (do_call adj c)))"
proof (cases c)
  case (Add_vertex v)
  with inv sym ev show ?thesis by (simp add: is_edge_add_vertex sizes_add_vertex)
next
  case (Add_edge u v w)
  with lf have ne: "u \<noteq> v" by simp
  have inv1: "adj_inv (assign adj u v w)" using inv by (rule adj_inv_assign)
  have edges: "is_edge (add_edge adj u v w) a b
               \<longleftrightarrow> is_edge adj a b \<or> (a = u \<and> b = v) \<or> (a = v \<and> b = u)" for a b
    by (simp add: add_edge_def is_edge_assign [OF inv1] is_edge_assign [OF inv])
  have mirror: "is_edge (assign adj u v w) v u \<longleftrightarrow> is_edge adj u v"
    using sym ne by (auto simp: is_edge_assign [OF inv])
  have "sum_list (map (\<lambda>p. length (snd p)) (add_edge adj u v w))
        = sum_list (map (\<lambda>p. length (snd p)) adj) + 2 * (if is_edge adj u v then 0 else 1)"
    by (simp add: add_edge_def sizes_assign [OF inv1] sizes_assign [OF inv] mirror)
  with ev have "even (sum_list (map (\<lambda>p. length (snd p)) (add_edge adj u v w)))"
    by simp
  moreover have "\<forall>a b. is_edge (add_edge adj u v w) a b \<longrightarrow> is_edge (add_edge adj u v w) b a"
    using sym by (auto simp: edges)
  ultimately show ?thesis by (simp add: Add_edge)
qed

lemma loop_free_run:
  "list_all loop_free cs \<Longrightarrow>
   (\<forall>a b. is_edge (run cs) a b \<longrightarrow> is_edge (run cs) b a)
   \<and> even (sum_list (map (\<lambda>p. length (snd p)) (run cs)))"
proof (induction cs rule: rev_induct)
  case Nil
  show ?case by (simp add: run_def Adjacency_list_def is_edge_def)
next
  case (snoc c cs)
  from snoc.prems have cs: "list_all loop_free cs" and c: "loop_free c" by simp_all
  have step: "run (cs @ [c]) = do_call (run cs) c" by (simp add: run_def)
  from snoc.IH [OF cs] loop_free_step [OF adj_inv_run _ _ c, of cs]
  show ?case unfolding step by blast
qed

lemma num_edge_exact_without_self_loops:
  assumes "list_all loop_free cs"
  shows "2 * num_edge (run cs) = degree_sum (run cs)"
proof -
  have "map_inv (run cs)" using adj_inv_run [of cs] by (simp add: adj_inv_def)
  then have d: "degree_sum (run cs) = sum_list (map (\<lambda>p. length (snd p)) (run cs))"
    by (rule degree_sum_sizes)
  from loop_free_run [OF assms] have "even (degree_sum (run cs))" by (simp add: d)
  moreover have "num_edge (run cs) = degree_sum (run cs) div 2"
    by (simp add: num_edge_def foldl_sizes drop_bit_eq_div d)
  ultimately show ?thesis by simp
qed

section \<open>The constructors and the invariant\<close>

lemma adj_inv_bare_subscript: "adj_inv adj \<Longrightarrow> adj_inv (subscript adj v [] id)"
  using adj_inv_add_vertex [of adj v] by (simp add: add_vertex_def)

lemma adj_inv_constructors:
  "adj_inv (Adjacency_list_UEdge ul)"
  "adj_inv (Adjacency_list_WEdge wl)"
  "adj_inv (Adjacency_list_range source dest get_weight es)"
  "adj_inv (Adjacency_list_directed_UEdge ul)"
  "adj_inv (Adjacency_list_directed_WEdge wl)"
  "adj_inv (Adjacency_list_directed_range source dest get_weight es)"
  unfolding Adjacency_list_UEdge_def Adjacency_list_WEdge_def Adjacency_list_range_def
    Adjacency_list_directed_UEdge_def Adjacency_list_directed_WEdge_def
    Adjacency_list_directed_range_def
  by (rule adj_inv_foldl [OF adj_inv_empty],
      simp add: adj_inv_assign adj_inv_bare_subscript split: UEdge.split WEdge.split)+

section \<open>The two scenarios of the specification\<close>

text \<open>
  The undirected graph built from the edge list \<open>[(1,2,5), (2,3,1)]\<close>, and the directed
  graph built from \<open>[(1,2), (2,3)]\<close> with the default weight.
\<close>

lemma scenario_undirected:
  "Adjacency_list_WEdge [WEdge (1::int) 2 5, WEdge 2 3 1]
     = [(1, [(2, 5)]), (2, [(1, 5), (3, 1)]), (3, [(2, 1)])]"
  "num_vertex (Adjacency_list_WEdge [WEdge (1::int) 2 5, WEdge 2 3 1]) = 3"
  "num_edge (Adjacency_list_WEdge [WEdge (1::int) 2 5, WEdge 2 3 1]) = 2"
  "weight (Adjacency_list_WEdge [WEdge (1::int) 2 5, WEdge 2 3 1]) 1 2 = 5"
  "weight (Adjacency_list_WEdge [WEdge (1::int) 2 5, WEdge 2 3 1]) 2 3 = 1"
  "weight (Adjacency_list_WEdge [WEdge (1::int) 2 5, WEdge 2 3 1]) 1 3 = 0"
  "\<not> is_edge (Adjacency_list_WEdge [WEdge (1::int) 2 5, WEdge 2 3 1]) 3 1"
  by (simp_all add: Adjacency_list_WEdge_def assign_def num_vertex_def num_edge_def
      weight_def is_edge_def drop_bit_eq_div)

lemma scenario_directed:
  "Adjacency_list_directed_UEdge [UEdge (1::int) 2, UEdge 2 3]
     = [(1, [(2, 1)]), (2, [(3, 1)]), (3, [])]"
  "num_edge_directed (Adjacency_list_directed_UEdge [UEdge (1::int) 2, UEdge 2 3]) = 2"
  "degree (Adjacency_list_directed_UEdge [UEdge (1::int) 2, UEdge 2 3]) 1 = 1"
  "degree (Adjacency_list_directed_UEdge [UEdge (1::int) 2, UEdge 2 3]) 3 = 0"
  "is_vertex (Adjacency_list_directed_UEdge [UEdge (1::int) 2, UEdge 2 3]) 3"
  by (simp_all add: Adjacency_list_directed_UEdge_def assign_def num_edge_directed_def
      degree_def is_vertex_def)

end
